theory Spec2Isabelle
  imports Main "HOL-Library.AList"
begin

section \<open>Python values and errors\<close>

text \<open>
  The development embeds \<^verbatim>\<open>phigaro/cli/batch.py\<close>. Python exceptions are values:
  the built-in classes that the statements of the module raise themselves, and
  \<open>OtherError\<close> with the class name for whatever an imported collaborator raises.
\<close>

datatype py_error = ValueError | TypeError | KeyError | OSError | OtherError string

text \<open>
  The values that reach \<^verbatim>\<open>args.output\<close> and the entries of the \<^verbatim>\<open>phigaro\<close>
  section of the configuration: argparse leaves \<^verbatim>\<open>False\<close> (the declared default) or
  the string given after \<^verbatim>\<open>-o\<close>.
\<close>

datatype pyval = PNone | PBool bool | PStr string | PInt int

fun truthy :: "pyval \<Rightarrow> bool" where
  "truthy PNone = False"
| "truthy (PBool b) = b"
| "truthy (PStr s) = (s \<noteq> [])"
| "truthy (PInt i) = (i \<noteq> 0)"

section \<open>String helpers of the standard library\<close>

text \<open>
  \<^verbatim>\<open>str.split(sep)\<close> with a one-character separator and no \<^verbatim>\<open>maxsplit\<close>: the string
  is cut at every occurrence of the separator. \<open>acc\<close> holds the current field reversed.
\<close>

fun split_acc :: "char \<Rightarrow> string \<Rightarrow> string \<Rightarrow> string list" where
  "split_acc sep acc [] = [rev acc]"
| "split_acc sep acc (c # cs) =
     (if c = sep then rev acc # split_acc sep [] cs else split_acc sep (c # acc) cs)"

definition split :: "char \<Rightarrow> string \<Rightarrow> string list" where
  "split sep s = split_acc sep [] s"

text \<open>\<^verbatim>\<open>str.lower()\<close> on ASCII text: the letters A to Z move to a to z.\<close>

definition lower_char :: "char \<Rightarrow> char" where
  "lower_char c =
     (case map_of (zip ''ABCDEFGHIJKLMNOPQRSTUVWXYZ'' ''abcdefghijklmnopqrstuvwxyz'') c of
        Some d \<Rightarrow> d
      | None \<Rightarrow> c)"

definition lower :: "string \<Rightarrow> string" where
  "lower s = map lower_char s"

section \<open>Tasks\<close>

text \<open>The four task classes that \<^verbatim>\<open>main\<close> instantiates; the module imports them.\<close>

datatype task_class = PreprocessTask | ProdigalTask | HmmerTask | RunPhigaroTask

text \<open>
  Modelled from the spec: the constructor of \<^verbatim>\<open>DummyTask\<close>, a class imported from
  \<^verbatim>\<open>phigaro.batch.task.dummy\<close>. The spec has it "constructed directly from a
  user-given file path", so \<^verbatim>\<open>DummyTask(output, task_name)\<close> is the pair of its
  arguments and making one does nothing else. A task of one of the four classes is
  recorded by the constructor call that made it: the class, its positional strings and
  the tasks passed to it.
\<close>

datatype task =
    RealTask task_class "string list" "task list"
  | DummyTask string string

type_synonym substitutions = "(string \<times> task) list"

section \<open>parse_substitute_output\<close>

text \<open>
  \<^verbatim>\<open>
  def parse_substitute_output(subs):
      subs = subs or []
      res = {}
      for sub in subs:
          task_name, output = sub.split(":")
          res[task_name] = DummyTask(output, task_name)
      return res
  \<close>
  The dictionary is an association list; \<^verbatim>\<open>res[k] = v\<close> overwrites the entry of an
  existing key in place and appends a new key. Unpacking the split into two names
  raises \<^verbatim>\<open>ValueError\<close> unless the split has exactly two fields.
\<close>

fun parse_loop :: "string list \<Rightarrow> substitutions \<Rightarrow> py_error + substitutions" where
  "parse_loop [] res = Inr res"
| "parse_loop (sub # subs) res =
     (case split CHR '':'' sub of
        [task_name, output] \<Rightarrow>
          parse_loop subs (AList.update task_name (DummyTask output task_name) res)
      | _ \<Rightarrow> Inl ValueError)"

definition parse_substitute_output :: "string list option \<Rightarrow> py_error + substitutions" where
  "parse_substitute_output subs =
     parse_loop (case subs of None \<Rightarrow> [] | Some xs \<Rightarrow> xs) []"

section \<open>The scratch directory tree and clean_fold\<close>

text \<open>
  A directory lists its entries in the order \<^verbatim>\<open>os.scandir\<close> reports them; a path is the
  list of its components below the working directory, so that
  \<^verbatim>\<open>os.path.join(root, name)\<close> is \<open>root @ [name]\<close>. A \<open>Link\<close> is a symbolic link
  to a directory: \<^verbatim>\<open>os.walk\<close> lists it among the directories without descending
  into it, and \<^verbatim>\<open>os.rmdir\<close> refuses it. Whatever else is not a directory is a
  \<open>File\<close>. Paths are not resolved through links, and a link as the top of the walk
  is outside the model.
\<close>

datatype fsnode = File | Link | Dir "(string \<times> fsnode) list"

type_synonym path = "string list"

text \<open>\<^verbatim>\<open>entry.is_dir()\<close> of a listing, which follows links.\<close>

fun is_dir :: "fsnode \<Rightarrow> bool" where
  "is_dir (Dir es) = True"
| "is_dir Link = True"
| "is_dir File = False"

fun lookup :: "fsnode \<Rightarrow> path \<Rightarrow> fsnode option" where
  "lookup t [] = Some t"
| "lookup t (n # p) =
     (case t of
        Dir es \<Rightarrow> (case map_of es n of None \<Rightarrow> None | Some c \<Rightarrow> lookup c p)
      | _ \<Rightarrow> None)"

text \<open>\<open>replace t p new\<close> puts \<open>new\<close> where the path \<open>p\<close> leads; no such place, no change.\<close>

fun replace :: "fsnode \<Rightarrow> path \<Rightarrow> fsnode \<Rightarrow> fsnode" where
  "replace t [] new = new"
| "replace t (n # p) new =
     (case t of
        Dir es \<Rightarrow>
          (case map_of es n of
             None \<Rightarrow> t
           | Some c \<Rightarrow> Dir (AList.update n (replace c p new) es))
      | _ \<Rightarrow> t)"

text \<open>
  \<^verbatim>\<open>os.rmdir(path)\<close> removes an empty directory and raises \<^verbatim>\<open>OSError\<close> for anything
  else: a missing path, a file, a link, a directory that still has an entry.
\<close>

definition os_rmdir :: "path \<Rightarrow> fsnode \<Rightarrow> py_error + fsnode" where
  "os_rmdir p fs =
     (if p = [] then Inl OSError
      else (case lookup fs (butlast p) of
              Some (Dir es) \<Rightarrow>
                (case map_of es (last p) of
                   Some (Dir []) \<Rightarrow> Inr (replace fs (butlast p) (Dir (AList.delete (last p) es)))
                 | _ \<Rightarrow> Inl OSError)
            | _ \<Rightarrow> Inl OSError))"

definition dir_names :: "(string \<times> fsnode) list \<Rightarrow> string list" where
  "dir_names es = map fst (filter (\<lambda>e. is_dir (snd e)) es)"

definition file_names :: "(string \<times> fsnode) list \<Rightarrow> string list" where
  "file_names es = map fst (filter (\<lambda>e. \<not> is_dir (snd e)) es)"

text \<open>
  \<^verbatim>\<open>os.walk(top, topdown=False)\<close>: a directory is listed when the walk enters it, its
  subdirectories are walked in listing order, and only then its own triple
  \<^verbatim>\<open>(root, dirs, files)\<close> is produced. The loop body of \<^verbatim>\<open>clean_fold\<close> removes
  children of a directory only when that directory's triple arrives, after every listing
  below it has been taken, so each triple shows the tree as it was when the walk began.
  A top that is not a directory produces nothing (the walk swallows the error), and a
  link met in a listing is not entered.
\<close>

fun os_walk :: "path \<Rightarrow> fsnode \<Rightarrow> (path \<times> string list \<times> string list) list"
  and os_walk_entries :: "path \<Rightarrow> (string \<times> fsnode) list \<Rightarrow> (path \<times> string list \<times> string list) list"
where
  "os_walk root File = []"
| "os_walk root Link = []"
| "os_walk root (Dir es) = os_walk_entries root es @ [(root, dir_names es, file_names es)]"
| "os_walk_entries root [] = []"
| "os_walk_entries root ((n, c) # es) = os_walk (root @ [n]) c @ os_walk_entries root es"

text \<open>
  \<^verbatim>\<open>
  def clean_fold():
      is_empty = True
      for root, dirs, files in os.walk('proc', topdown=False):
          for name in files:
              is_empty = False
              break
          if is_empty:
              for name in dirs:
                  os.rmdir(os.path.join(root, name))
      if is_empty:
          os.rmdir('proc')
  \<close>
  The state of the loop is the flag and the directory tree of the working directory.
\<close>

fun rmdir_each :: "path \<Rightarrow> string list \<Rightarrow> fsnode \<Rightarrow> py_error + fsnode" where
  "rmdir_each root [] fs = Inr fs"
| "rmdir_each root (name # dirs) fs =
     (case os_rmdir (root @ [name]) fs of
        Inl e \<Rightarrow> Inl e
      | Inr fs' \<Rightarrow> rmdir_each root dirs fs')"

fun walk_loop ::
  "(path \<times> string list \<times> string list) list \<Rightarrow> bool \<Rightarrow> fsnode \<Rightarrow> py_error + (bool \<times> fsnode)"
where
  "walk_loop [] is_empty fs = Inr (is_empty, fs)"
| "walk_loop ((root, dirs, files) # rest) is_empty fs =
     (let is_empty' = (if files \<noteq> [] then False else is_empty) in
      if is_empty' then
        (case rmdir_each root dirs fs of
           Inl e \<Rightarrow> Inl e
         | Inr fs' \<Rightarrow> walk_loop rest is_empty' fs')
      else walk_loop rest is_empty' fs)"

definition clean_fold :: "fsnode \<Rightarrow> py_error + fsnode" where
  "clean_fold fs =
     (case walk_loop
             (case lookup fs [''proc''] of None \<Rightarrow> [] | Some t \<Rightarrow> os_walk [''proc''] t)
             True fs of
        Inl e \<Rightarrow> Inl e
      | Inr (is_empty, fs') \<Rightarrow> if is_empty then os_rmdir [''proc''] fs' else Inr fs')"

text \<open>
  The number of files below a node, and trees without links whose directories list
  each name once.
\<close>

fun nfiles :: "fsnode \<Rightarrow> nat" and nfiles_entries :: "(string \<times> fsnode) list \<Rightarrow> nat" where
  "nfiles File = 1"
| "nfiles Link = 0"
| "nfiles (Dir es) = nfiles_entries es"
| "nfiles_entries [] = 0"
| "nfiles_entries ((n, c) # es) = nfiles c + nfiles_entries es"

fun well_formed :: "fsnode \<Rightarrow> bool" and well_formed_entries :: "(string \<times> fsnode) list \<Rightarrow> bool" where
  "well_formed File = True"
| "well_formed Link = False"
| "well_formed (Dir es) = (distinct (map fst es) \<and> well_formed_entries es)"
| "well_formed_entries [] = True"
| "well_formed_entries ((n, c) # es) = (well_formed c \<and> well_formed_entries es)"

section \<open>Runs: events, environment, outcomes\<close>

text \<open>
  \<^verbatim>\<open>main\<close> talks to the outside through imported code: the file system, the YAML
  loader, \<^verbatim>\<open>Context\<close>, the task classes and the runner. A run is the list of what it
  did there, in order, and how it ended. \<open>CleanFold\<close> marks the entry into
  \<^verbatim>\<open>clean_fold\<close>, whose own removals act on the tree above.
\<close>

type_synonym options = "(string \<times> pyval) list"

type_synonym config = "(string \<times> options) list"

datatype event =
    Print string
  | OpenConfig string
  | MakeDirs string
  | ContextInitialize string config int
  | Construct task
  | RunTasksChain "task list"
  | ReadLines string
  | WriteLines string "string list"
  | StdoutLines "string list"
  | StdoutClose
  | Clean task
  | CleanFold

text \<open>
  The environment answers for the imported code: whether a call raises and with what,
  and what it returns when it does not. \<open>class_task_name\<close> is the \<^verbatim>\<open>task_name\<close>
  attribute of a task class, \<open>scratch_tree\<close> the working directory as the tasks'
  \<^verbatim>\<open>clean()\<close> calls leave it.
\<close>

record env =
  path_exists :: "string \<Rightarrow> bool"
  path_isdir :: "string \<Rightarrow> bool"
  raises :: "event \<Rightarrow> py_error option"
  yaml_load :: "string \<Rightarrow> config"
  uuid4_hex :: string
  sample_name :: "string \<Rightarrow> string"
  class_task_name :: "task_class \<Rightarrow> string"
  real_output :: "task \<Rightarrow> string"
  chain_output :: "task list \<Rightarrow> string"
  file_lines :: "string \<Rightarrow> string list"
  scratch_tree :: fsnode

text \<open>The namespace \<^verbatim>\<open>parser.parse_args()\<close> returns.\<close>

record args =
  fasta_file :: string
  config_path :: string
  verbose :: bool
  print_vogs :: bool
  extension :: "string list"
  "output" :: pyval
  not_open :: bool
  threads :: int
  no_cleanup :: bool
  substitute_output :: "string list option"
  delete_shorts :: bool
  mode :: string

text \<open>\<^verbatim>\<open>exit(n)\<close> and an uncaught exception both end the run.\<close>

datatype stop = Exit nat | Raise py_error

type_synonym 'a run = "event list \<times> (stop + 'a)"

definition ret :: "'a \<Rightarrow> 'a run" where
  "ret v = ([], Inr v)"

definition halt :: "stop \<Rightarrow> 'a run" where
  "halt s = ([], Inl s)"

definition seq :: "'a run \<Rightarrow> ('a \<Rightarrow> 'b run) \<Rightarrow> 'b run" where
  "seq m f =
     (case m of
        (tr, Inl s) \<Rightarrow> (tr, Inl s)
      | (tr, Inr v) \<Rightarrow> (case f v of (tr', r) \<Rightarrow> (tr @ tr', r)))"

definition say :: "string \<Rightarrow> unit run" where
  "say msg = ([Print msg], Inr ())"

definition call :: "env \<Rightarrow> event \<Rightarrow> 'a \<Rightarrow> 'a run" where
  "call env ev v = ([ev], case raises env ev of Some e \<Rightarrow> Inl (Raise e) | None \<Rightarrow> Inr v)"

section \<open>create_task\<close>

text \<open>
  Modelled from the spec: \<^verbatim>\<open>DummyTask.output()\<close>, whose class is imported from
  \<^verbatim>\<open>phigaro.batch.task.dummy\<close>; the spec has "its output() immediately returns that
  path". The output of any other task is the environment's.
\<close>

fun task_output :: "env \<Rightarrow> task \<Rightarrow> string" where
  "task_output env (DummyTask out name) = out"
| "task_output env (RealTask cls a k) = real_output env (RealTask cls a k)"

text \<open>
  \<^verbatim>\<open>
  def create_task(substitutions, task_class, *args, **kwargs):
      task = task_class(*args, **kwargs)
      if task.task_name in substitutions:
          print('Substituting output for {}: {}'.format(
              task.task_name, substitutions[task.task_name].output()
          ))
          return substitutions[task.task_name]
      return task
  \<close>
  \<^verbatim>\<open>task.task_name\<close> is read from the instance just made, where it is the attribute of
  its class.
\<close>

definition create_task ::
  "env \<Rightarrow> substitutions \<Rightarrow> task_class \<Rightarrow> string list \<Rightarrow> task list \<Rightarrow> task run"
where
  "create_task env substitutions cls pos kwargs =
     seq (call env (Construct (RealTask cls pos kwargs)) (RealTask cls pos kwargs)) (\<lambda>task.
       case map_of substitutions (class_task_name env cls) of
         Some sub \<Rightarrow>
           seq (say (''Substituting output for '' @ class_task_name env cls @ '': '' @
                     task_output env sub))
             (\<lambda>_. ret sub)
       | None \<Rightarrow> ret task)"

section \<open>main\<close>

text \<open>
  The model starts where \<^verbatim>\<open>args = parser.parse_args()\<close> has returned. Lines 92 to 100:
  the two checks that end the run with \<^verbatim>\<open>exit(1)\<close>; the value is the lowercased list
  that replaces \<^verbatim>\<open>args.extension\<close>.
\<close>

definition check_args :: "env \<Rightarrow> args \<Rightarrow> string list run" where
  "check_args env a =
     (if \<not> path_exists env (config_path a) then
        seq (say ''Please, create config file using phigaro-setup script'') (\<lambda>_. halt (Exit 1))
      else
        (let ext = map lower (extension a) in
         if \<not> truthy (output a) \<and> ext \<noteq> [''stdout''] then
           seq (say (''Error! Argument -o/--output is required or '' @
                     ''change the type of the output to stdout.''))
             (\<lambda>_. halt (Exit 1))
         else ret ext))"

text \<open>
  Lines 102 to 115: the configuration is loaded and ten keys of its \<^verbatim>\<open>phigaro\<close> section
  are assigned; a document without that section raises \<^verbatim>\<open>KeyError\<close> at the first
  assignment.
\<close>

definition set_options :: "args \<Rightarrow> string list \<Rightarrow> string \<Rightarrow> options \<Rightarrow> options" where
  "set_options a ext uuid opts =
     fold (\<lambda>(k, v). AList.update k v)
       [(''print_vogs'', PBool (print_vogs a)),
        (''filename'', PStr (fasta_file a)),
        (''no_html'', PBool (''html'' \<notin> set ext)),
        (''not_open'', PBool (not_open a)),
        (''output'', output a),
        (''uuid'', PStr uuid),
        (''delete_shorts'', PBool (delete_shorts a)),
        (''gff'', PBool (''gff'' \<in> set ext)),
        (''bed'', PBool (''bed'' \<in> set ext)),
        (''mode'', PStr (mode a))]
       opts"

definition load_config :: "env \<Rightarrow> args \<Rightarrow> string list \<Rightarrow> config run" where
  "load_config env a ext =
     seq (call env (OpenConfig (config_path a)) (yaml_load env (config_path a))) (\<lambda>cfg.
       case map_of cfg ''phigaro'' of
         None \<Rightarrow> halt (Raise KeyError)
       | Some opts \<Rightarrow>
           ret (AList.update ''phigaro'' (set_options a ext (uuid4_hex env) opts) cfg))"

text \<open>
  \<^verbatim>\<open>os.path.dirname\<close> of a POSIX path: everything up to the last slash, with trailing
  slashes dropped unless nothing else is left. It takes a string and raises
  \<^verbatim>\<open>TypeError\<close> on anything else.
\<close>

definition dirname :: "string \<Rightarrow> string" where
  "dirname p =
     (let head = rev (dropWhile (\<lambda>c. c \<noteq> CHR ''/'') (rev p)) in
      if head \<noteq> [] \<and> head \<noteq> replicate (length head) CHR ''/''
      then rev (dropWhile (\<lambda>c. c = CHR ''/'') (rev head))
      else head)"

definition os_path_dirname :: "pyval \<Rightarrow> string run" where
  "os_path_dirname v = (case v of PStr s \<Rightarrow> ret (dirname s) | _ \<Rightarrow> halt (Raise TypeError))"

text \<open>
  Lines 123 to 126:
  \<^verbatim>\<open>
  if config['phigaro']['output'] is not None:
      fold = os.path.dirname(config['phigaro']['output'])
      if fold and not os.path.isdir(fold):
          os.makedirs(fold)
  \<close>
\<close>

definition make_output_dir :: "env \<Rightarrow> config \<Rightarrow> unit run" where
  "make_output_dir env cfg =
     (case map_of cfg ''phigaro'' of
        None \<Rightarrow> halt (Raise KeyError)
      | Some opts \<Rightarrow>
          (case map_of opts ''output'' of
             None \<Rightarrow> halt (Raise KeyError)
           | Some out \<Rightarrow>
               if out \<noteq> PNone then
                 seq (os_path_dirname out) (\<lambda>fold.
                   if fold \<noteq> [] \<and> \<not> path_isdir env fold then call env (MakeDirs fold) ()
                   else ret ())
               else ret ()))"

text \<open>Lines 134 to 157: the substitutions are parsed, then the four stages are made.\<close>

definition build_tasks :: "env \<Rightarrow> args \<Rightarrow> task list run" where
  "build_tasks env a =
     (case parse_substitute_output (substitute_output a) of
        Inl e \<Rightarrow> halt (Raise e)
      | Inr substitutions \<Rightarrow>
          seq (create_task env substitutions PreprocessTask [fasta_file a] []) (\<lambda>preprocess_task.
          seq (create_task env substitutions ProdigalTask [] [preprocess_task]) (\<lambda>prodigal_task.
          seq (create_task env substitutions HmmerTask [] [prodigal_task]) (\<lambda>hmmer_task.
          seq (create_task env substitutions RunPhigaroTask [] [prodigal_task, hmmer_task])
            (\<lambda>run_phigaro_task.
          ret [preprocess_task, prodigal_task, hmmer_task, run_phigaro_task])))))"

text \<open>
  Lines 160 to 171: the final artifact is read and copied to \<^verbatim>\<open>args.output + '.tsv'\<close>
  and to standard output, which is closed afterwards.
\<close>

definition mirror :: "env \<Rightarrow> args \<Rightarrow> string list \<Rightarrow> string \<Rightarrow> unit run" where
  "mirror env a ext task_output_file =
     (if ''tsv'' \<in> set ext \<or> ''stdout'' \<in> set ext then
        seq (call env (ReadLines task_output_file) (file_lines env task_output_file)) (\<lambda>f.
        seq (if ''tsv'' \<in> set ext then
               (case output a of
                  PStr s \<Rightarrow> call env (WriteLines (s @ ''.tsv'') f) ()
                | _ \<Rightarrow> halt (Raise TypeError))
             else ret ()) (\<lambda>_.
        if ''stdout'' \<in> set ext then ([StdoutLines f, StdoutClose], Inr ()) else ret ()))
      else ret ())"

text \<open>
  Lines 173 to 176. The value of the run is the working directory as \<^verbatim>\<open>clean_fold\<close>
  leaves it, or nothing when cleanup is switched off.
\<close>

fun clean_all :: "env \<Rightarrow> task list \<Rightarrow> unit run" where
  "clean_all env [] = ret ()"
| "clean_all env (t # ts) = seq (call env (Clean t) ()) (\<lambda>_. clean_all env ts)"

definition cleanup :: "env \<Rightarrow> args \<Rightarrow> task list \<Rightarrow> fsnode option run" where
  "cleanup env a tasks =
     (if \<not> no_cleanup a then
        seq (clean_all env tasks) (\<lambda>_.
          ([CleanFold],
           case clean_fold (scratch_tree env) of
             Inl e \<Rightarrow> Inl (Raise e)
           | Inr fs' \<Rightarrow> Inr (Some fs')))
      else ret None)"

definition run_pipeline :: "env \<Rightarrow> args \<Rightarrow> string list \<Rightarrow> fsnode option run" where
  "run_pipeline env a ext =
     seq (build_tasks env a) (\<lambda>tasks.
     seq (call env (RunTasksChain tasks) (chain_output env tasks)) (\<lambda>task_output_file.
     seq (mirror env a ext task_output_file) (\<lambda>_.
     cleanup env a tasks)))"

definition prepare :: "env \<Rightarrow> args \<Rightarrow> string list run" where
  "prepare env a =
     seq (check_args env a) (\<lambda>ext.
     seq (load_config env a ext) (\<lambda>cfg.
     seq (make_output_dir env cfg) (\<lambda>_.
     seq (call env
            (ContextInitialize (sample_name env (fasta_file a) @ ''-'' @ uuid4_hex env) cfg
               (threads a)) ())
       (\<lambda>_. ret ext))))"

definition main :: "env \<Rightarrow> args \<Rightarrow> fsnode option run" where
  "main env a = seq (prepare env a) (\<lambda>ext. run_pipeline env a ext)"

section \<open>Auxiliary notions for the statements\<close>

text \<open>Classes of events: everything done with tasks, the cleanup, the chain execution.\<close>

fun is_task_event :: "event \<Rightarrow> bool" where
  "is_task_event (Construct t) = True"
| "is_task_event (RunTasksChain ts) = True"
| "is_task_event (Clean t) = True"
| "is_task_event CleanFold = True"
| "is_task_event _ = False"

fun is_cleanup :: "event \<Rightarrow> bool" where
  "is_cleanup (Clean t) = True"
| "is_cleanup CleanFold = True"
| "is_cleanup _ = False"

fun is_chain :: "event \<Rightarrow> bool" where
  "is_chain (RunTasksChain ts) = True"
| "is_chain _ = False"

text \<open>
  What the walk of \<^verbatim>\<open>clean_fold\<close> leaves of a directory without links that it enters
  with the flag still set: a directory without files below it is emptied; otherwise its
  subdirectories are treated in listing order up to and including the first one that
  holds a file, and the rest is left alone. \<open>subdir_files\<close> counts the files below the subdirectories only.
\<close>

fun prune :: "fsnode \<Rightarrow> fsnode"
  and prune_entries :: "(string \<times> fsnode) list \<Rightarrow> (string \<times> fsnode) list"
where
  "prune File = File"
| "prune Link = Link"
| "prune (Dir es) = (if nfiles_entries es = 0 then Dir [] else Dir (prune_entries es))"
| "prune_entries [] = []"
| "prune_entries ((n, c) # es) =
     (n, prune c) # (if is_dir c \<and> nfiles c \<noteq> 0 then es else prune_entries es)"

fun subdir_files :: "(string \<times> fsnode) list \<Rightarrow> nat" where
  "subdir_files [] = 0"
| "subdir_files ((n, c) # es) = (if is_dir c then nfiles c else 0) + subdir_files es"

section \<open>Sample runs\<close>

text \<open>
  An environment in which every call succeeds, the configuration file exists and has
  an empty \<^verbatim>\<open>phigaro\<close> section, and the scratch directory is empty after the tasks'
  cleanup; and the arguments of \<^verbatim>\<open>phigaro -f genome.fa -c config.yml -o res/x\<close>.
\<close>

definition demo_env :: env where
  "demo_env =
     \<lparr>path_exists = (\<lambda>p. p = ''config.yml''),
      path_isdir = (\<lambda>p. True),
      raises = (\<lambda>ev. None),
      yaml_load = (\<lambda>p. [(''phigaro'', [])]),
      uuid4_hex = ''0f'',
      sample_name = (\<lambda>f. ''genome''),
      class_task_name =
        (\<lambda>c. case c of
               PreprocessTask \<Rightarrow> ''preprocess''
             | ProdigalTask \<Rightarrow> ''prodigal''
             | HmmerTask \<Rightarrow> ''hmmer''
             | RunPhigaroTask \<Rightarrow> ''run_phigaro''),
      real_output = (\<lambda>t. ''proc/out''),
      chain_output = (\<lambda>ts. ''proc/out''),
      file_lines = (\<lambda>p. [''scaffold'']),
      scratch_tree = Dir [(''proc'', Dir [])]\<rparr>"

definition demo_args :: args where
  "demo_args =
     \<lparr>fasta_file = ''genome.fa'',
      config_path = ''config.yml'',
      verbose = False,
      print_vogs = False,
      extension = [''html''],
      output = PStr ''res/x'',
      not_open = False,
      threads = 2,
      no_cleanup = False,
      substitute_output = None,
      delete_shorts = False,
      mode = ''basic''\<rparr>"

definition demo_tasks :: "task list" where
  "demo_tasks =
     (let preprocess_task = RealTask PreprocessTask [''genome.fa''] [];
          prodigal_task = RealTask ProdigalTask [] [preprocess_task];
          hmmer_task = RealTask HmmerTask [] [prodigal_task];
          run_phigaro_task = RealTask RunPhigaroTask [] [prodigal_task, hmmer_task]
      in [preprocess_task, prodigal_task, hmmer_task, run_phigaro_task])"

text \<open>The same environment with a failing chain, and with an output file that cannot be opened.\<close>

definition chain_fails_env :: env where
  "chain_fails_env =
     demo_env\<lparr>raises :=
       (\<lambda>ev. case ev of RunTasksChain ts \<Rightarrow> Some (OtherError ''ExecutionError'') | _ \<Rightarrow> None)\<rparr>"

definition write_fails_env :: env where
  "write_fails_env =
     demo_env\<lparr>raises := (\<lambda>ev. case ev of WriteLines p ls \<Rightarrow> Some OSError | _ \<Rightarrow> None)\<rparr>"

text \<open>
  A scratch directory with an empty subtree listed before a leftover file, one that
  holds directories only, beside a file of the user, and one that holds a link.
\<close>

definition leftover_tree :: fsnode where
  "leftover_tree =
     Dir [(''proc'', Dir [(''a'', Dir [(''a1'', Dir [])]), (''b'', Dir [(''f'', File)])])]"

definition file_free_tree :: fsnode where
  "file_free_tree =
     Dir [(''proc'', Dir [(''a'', Dir [(''a1'', Dir [])]), (''b'', Dir [])]),
          (''genome.fa'', File)]"

definition linked_tree :: fsnode where
  "linked_tree = Dir [(''proc'', Dir [(''a'', Dir []), (''l'', Link)])]"

section \<open>Lemmas: splitting and the parser\<close>

lemma split_acc_not_Nil: "split_acc sep acc s \<noteq> []"
  by (induction s arbitrary: acc) auto

lemma split_acc_no_sep: "sep \<notin> set s \<Longrightarrow> split_acc sep acc s = [rev acc @ s]"
  by (induction s arbitrary: acc) auto

lemma split_acc_append:
  "sep \<notin> set a \<Longrightarrow> split_acc sep acc (a @ sep # b) = (rev acc @ a) # split_acc sep [] b"
  by (induction a arbitrary: acc) auto

lemma split_acc_single:
  "split_acc sep acc s = [x] \<longleftrightarrow> sep \<notin> set s \<and> x = rev acc @ s"
  by (induction s arbitrary: acc) (auto simp: split_acc_not_Nil)

lemma split_acc_hd: "hd (split_acc sep acc s) = rev acc @ takeWhile (\<lambda>c. c \<noteq> sep) s"
  by (induction s arbitrary: acc) auto

lemma split_acc_two:
  "split_acc sep acc s = [x, y] \<Longrightarrow>
     \<exists>a. s = a @ sep # y \<and> sep \<notin> set a \<and> sep \<notin> set y \<and> x = rev acc @ a"
proof (induction s arbitrary: acc)
  case Nil
  then show ?case by simp
next
  case (Cons c cs)
  show ?case
  proof (cases "c = sep")
    case True
    with Cons.prems have "split_acc sep [] cs = [y]" and "x = rev acc" by simp_all
    with True show ?thesis by (auto simp: split_acc_single)
  next
    case False
    with Cons.prems have "split_acc sep (c # acc) cs = [x, y]" by simp
    from Cons.IH[OF this] obtain a
      where "cs = a @ sep # y" "sep \<notin> set a" "sep \<notin> set y" "x = rev (c # acc) @ a"
      by blast
    with False show ?thesis by (intro exI[of _ "c # a"]) auto
  qed
qed

lemma split_two_iff:
  "split sep s = [a, b] \<longleftrightarrow> s = a @ sep # b \<and> sep \<notin> set a \<and> sep \<notin> set b"
  unfolding split_def
  using split_acc_two[of sep "[]" s a b] by (auto simp: split_acc_append split_acc_no_sep)

lemma split_hd: "split sep s = x # xs \<Longrightarrow> x = takeWhile (\<lambda>c. c \<noteq> sep) s"
  unfolding split_def using split_acc_hd[of sep "[]" s] by simp

lemma split_no_sep: "sep \<notin> set s \<Longrightarrow> split sep s = [s]"
  unfolding split_def by (simp add: split_acc_no_sep)

lemma parse_loop_no_colon:
  "sub \<in> set subs \<Longrightarrow> CHR '':'' \<notin> set sub \<Longrightarrow> parse_loop subs res = Inl ValueError"
proof (induction subs arbitrary: res)
  case Nil
  then show ?case by simp
next
  case (Cons s subs)
  show ?case
  proof (cases "s = sub")
    case True
    with Cons.prems show ?thesis by (simp add: split_no_sep)
  next
    case False
    with Cons.prems have "parse_loop subs r = Inl ValueError" for r by (simp add: Cons.IH)
    then show ?thesis by (simp split: list.splits)
  qed
qed

lemma parse_loop_append:
  "parse_loop (xs @ ys) res =
     (case parse_loop xs res of Inl e \<Rightarrow> Inl e | Inr r \<Rightarrow> parse_loop ys r)"
  by (induction xs arbitrary: res) (auto split: list.splits)

lemma parse_loop_distinct:
  "parse_loop subs res = Inr res' \<Longrightarrow> distinct (map fst res) \<Longrightarrow> distinct (map fst res')"
  by (induction subs arbitrary: res) (auto split: list.splits simp: distinct_update)

lemma parse_loop_keeps:
  "parse_loop subs res = Inr res' \<Longrightarrow>
     \<forall>s\<in>set subs. takeWhile (\<lambda>c. c \<noteq> CHR '':'') s \<noteq> t \<Longrightarrow>
     map_of res' t = map_of res t"
proof (induction subs arbitrary: res)
  case Nil
  then show ?case by simp
next
  case (Cons s subs)
  from Cons.prems(1) obtain n out where sp: "split CHR '':'' s = [n, out]"
    and rest: "parse_loop subs (AList.update n (DummyTask out n) res) = Inr res'"
    by (auto split: list.splits)
  from sp have "n = takeWhile (\<lambda>c. c \<noteq> CHR '':'') s" by (rule split_hd)
  with Cons.prems(2) have "n \<noteq> t" by auto
  moreover from Cons.IH[OF rest] Cons.prems(2)
  have "map_of res' t = map_of (AList.update n (DummyTask out n) res) t" by simp
  ultimately show ?case by (simp add: update_conv')
qed

lemma parse_loop_dummies:
  "parse_loop subs res = Inr res' \<Longrightarrow>
     \<forall>(k, v)\<in>set res. \<exists>p. v = DummyTask p k \<Longrightarrow>
     \<forall>(k, v)\<in>set res'. \<exists>p. v = DummyTask p k"
proof (induction subs arbitrary: res)
  case Nil
  then show ?case by simp
next
  case (Cons s subs)
  from Cons.prems(1) obtain n out where sp: "split CHR '':'' s = [n, out]"
    and rest: "parse_loop subs (AList.update n (DummyTask out n) res) = Inr res'"
    by (auto split: list.splits)
  have "\<forall>(k, v)\<in>set (AList.update n (DummyTask out n) res). \<exists>p. v = DummyTask p k"
    using Cons.prems(2) by (induction res) (auto split: if_splits)
  from Cons.IH[OF rest this] show ?case .
qed

lemma sep_unique:
  "x @ sep # y = n @ sep # out \<Longrightarrow> sep \<notin> set n \<Longrightarrow> sep \<notin> set out \<Longrightarrow> x = n \<and> y = out"
  by (auto simp: append_eq_append_conv2 append_eq_Cons_conv Cons_eq_append_conv)

lemma parse_loop_bad_entry:
  "sub \<in> set subs \<Longrightarrow> \<forall>n out. split CHR '':'' sub \<noteq> [n, out] \<Longrightarrow>
     parse_loop subs res = Inl ValueError"
proof (induction subs arbitrary: res)
  case Nil
  then show ?case by simp
next
  case (Cons s subs)
  show ?case
  proof (cases "s = sub")
    case True
    with Cons.prems show ?thesis by (auto split: list.splits)
  next
    case False
    with Cons.prems have "parse_loop subs r = Inl ValueError" for r by (simp add: Cons.IH)
    then show ?thesis by (simp split: list.splits)
  qed
qed

section \<open>Lemmas: runs\<close>

lemma seq_ret [simp]: "seq (ret v) f = f v"
  by (simp add: seq_def ret_def split: prod.splits)

lemma seq_halt [simp]: "seq (halt s) f = halt s"
  by (simp add: seq_def halt_def)

lemma fst_seq: "fst (seq m f) = fst m @ (case snd m of Inl s \<Rightarrow> [] | Inr v \<Rightarrow> fst (f v))"
  by (simp add: seq_def split: prod.splits sum.splits)

lemma set_options_extension [simp]:
  "set_options (a\<lparr>extension := e\<rparr>) ext uuid opts = set_options a ext uuid opts"
  by (simp add: set_options_def)

lemma load_config_extension [simp]:
  "load_config env (a\<lparr>extension := e\<rparr>) ext = load_config env a ext"
  by (simp add: load_config_def cong: option.case_cong)

lemma build_tasks_extension [simp]: "build_tasks env (a\<lparr>extension := e\<rparr>) = build_tasks env a"
  by (simp add: build_tasks_def cong: sum.case_cong)

lemma mirror_extension [simp]: "mirror env (a\<lparr>extension := e\<rparr>) ext f = mirror env a ext f"
  by (simp add: mirror_def cong: if_cong)

lemma cleanup_extension [simp]: "cleanup env (a\<lparr>extension := e\<rparr>) ts = cleanup env a ts"
  by (simp add: cleanup_def)

lemma run_pipeline_extension [simp]:
  "run_pipeline env (a\<lparr>extension := e\<rparr>) ext = run_pipeline env a ext"
  by (simp add: run_pipeline_def)

lemma check_args_extension:
  "map lower e1 = map lower e2 \<Longrightarrow>
     check_args env (a\<lparr>extension := e1\<rparr>) = check_args env (a\<lparr>extension := e2\<rparr>)"
  by (simp add: check_args_def)

lemma prepare_extension:
  "map lower e1 = map lower e2 \<Longrightarrow>
     prepare env (a\<lparr>extension := e1\<rparr>) = prepare env (a\<lparr>extension := e2\<rparr>)"
  by (simp add: prepare_def check_args_extension[of e1 e2])

lemma fst_call [simp]: "fst (call env ev v) = [ev]"
  by (simp add: call_def)

lemma snd_call: "snd (call env ev v) = (case raises env ev of Some e \<Rightarrow> Inl (Raise e) | None \<Rightarrow> Inr v)"
  by (simp add: call_def)

lemma fst_say [simp]: "fst (say m) = [Print m]" by (simp add: say_def)

lemma snd_say [simp]: "snd (say m) = Inr ()" by (simp add: say_def)

lemma fst_ret [simp]: "fst (ret v) = []" by (simp add: ret_def)

lemma snd_ret [simp]: "snd (ret v) = Inr v" by (simp add: ret_def)

lemma fst_halt [simp]: "fst (halt s) = []" by (simp add: halt_def)

lemma snd_halt [simp]: "snd (halt s) = Inl s" by (simp add: halt_def)

lemma check_args_events: "ev \<in> set (fst (check_args env a)) \<Longrightarrow> \<not> is_task_event ev"
  by (auto simp: check_args_def fst_seq Let_def split: if_splits)

lemma load_config_events: "ev \<in> set (fst (load_config env a ext)) \<Longrightarrow> \<not> is_task_event ev"
  by (auto simp: load_config_def fst_seq snd_call split: option.splits sum.splits)

lemma make_output_dir_events: "ev \<in> set (fst (make_output_dir env cfg)) \<Longrightarrow> \<not> is_task_event ev"
  by (auto simp: make_output_dir_def os_path_dirname_def fst_seq split: option.splits sum.splits pyval.splits if_splits)

lemma prepare_events: "ev \<in> set (fst (prepare env a)) \<Longrightarrow> \<not> is_task_event ev"
  unfolding prepare_def
  by (auto simp: fst_seq split: sum.splits dest: check_args_events load_config_events make_output_dir_events)

lemma create_task_events:
  "ev \<in> set (fst (create_task env subs cls pos kw)) \<Longrightarrow> \<not> is_cleanup ev \<and> \<not> is_chain ev"
  by (auto simp: create_task_def fst_seq snd_call split: option.splits sum.splits)

lemma build_tasks_events:
  "ev \<in> set (fst (build_tasks env a)) \<Longrightarrow> \<not> is_cleanup ev \<and> \<not> is_chain ev"
  unfolding build_tasks_def
  by (auto simp: fst_seq split: sum.splits dest: create_task_events)

lemma mirror_events:
  "ev \<in> set (fst (mirror env a ext f)) \<Longrightarrow> \<not> is_cleanup ev \<and> \<not> is_chain ev"
  by (auto simp: mirror_def fst_seq snd_call split: option.splits sum.splits pyval.splits if_splits)

lemma task_event_cleanup: "\<not> is_task_event ev \<Longrightarrow> \<not> is_cleanup ev \<and> \<not> is_chain ev"
  by (cases ev) auto

lemma seq_stops: "snd m = Inl s \<Longrightarrow> seq m f = (fst m, Inl s)"
  by (cases m) (simp add: seq_def)

lemma map_of_set_options_output: "map_of (set_options a ext uuid opts) ''output'' = Some (output a)"
  by (simp add: set_options_def update_conv')

lemma make_output_dir_loaded:
  "make_output_dir env (AList.update ''phigaro'' (set_options a ext uuid opts) cfg) =
     (if output a \<noteq> PNone then
        seq (os_path_dirname (output a)) (\<lambda>fold.
          if fold \<noteq> [] \<and> \<not> path_isdir env fold then call env (MakeDirs fold) () else ret ())
      else ret ())"
  by (simp add: make_output_dir_def update_conv' map_of_set_options_output)

lemma prepare_stdout_only:
  assumes "output a = PBool False" and "map lower (extension a) = [''stdout'']"
  shows "prepare env a =
     (if \<not> path_exists env (config_path a)
      then ([Print ''Please, create config file using phigaro-setup script''], Inl (Exit 1))
      else ([OpenConfig (config_path a)],
            case raises env (OpenConfig (config_path a)) of
              Some e \<Rightarrow> Inl (Raise e)
            | None \<Rightarrow>
               (case map_of (yaml_load env (config_path a)) ''phigaro'' of
                  None \<Rightarrow> Inl (Raise KeyError)
                | Some opts \<Rightarrow> Inl (Raise TypeError))))"
proof (cases "path_exists env (config_path a)")
  case False
  then show ?thesis
    by (simp add: prepare_def check_args_def seq_def say_def halt_def)
next
  case True
  with assms have chk: "check_args env a = ret [''stdout'']"
    by (simp add: check_args_def)
  show ?thesis
  proof (cases "raises env (OpenConfig (config_path a))")
    case (Some e)
    with True chk show ?thesis
      by (simp add: prepare_def load_config_def call_def seq_def ret_def)
  next
    case None
    show ?thesis
    proof (cases "map_of (yaml_load env (config_path a)) ''phigaro''")
      case N: None
      with True chk None show ?thesis
        by (simp add: prepare_def load_config_def call_def seq_def halt_def ret_def)
    next
      case (Some opts)
      with True chk None assms(1) show ?thesis
        by (simp add: prepare_def load_config_def call_def seq_def halt_def ret_def
            make_output_dir_loaded[unfolded seq_def ret_def] os_path_dirname_def)
    qed
  qed
qed

lemma check_args_ext: "check_args env a = (tr, Inr ext) \<Longrightarrow> ext = map lower (extension a)"
  by (auto simp: check_args_def seq_def say_def halt_def ret_def Let_def split: if_splits)

lemma prepare_ext: "prepare env a = (tr, Inr ext) \<Longrightarrow> ext = map lower (extension a)"
  unfolding prepare_def
  by (cases "check_args env a")
     (auto simp: seq_def ret_def dest!: check_args_ext split: sum.splits prod.splits)

lemma clean_all_ok:
  "\<forall>t\<in>set ts. raises env (Clean t) = None \<Longrightarrow> clean_all env ts = (map Clean ts, Inr ())"
  by (induction ts) (auto simp: ret_def seq_def call_def)

lemma clean_all_events: "ev \<in> set (fst (clean_all env ts)) \<Longrightarrow> \<not> is_chain ev"
  by (induction ts) (auto simp: fst_seq split: sum.splits)

lemma cleanup_events: "ev \<in> set (fst (cleanup env a ts)) \<Longrightarrow> \<not> is_chain ev"
  by (auto simp: cleanup_def fst_seq split: sum.splits if_splits dest: clean_all_events)

lemma cleanup_disabled: "no_cleanup a \<Longrightarrow> cleanup env a ts = ([], Inr None)"
  by (simp add: cleanup_def ret_def)

lemma cleanup_ok:
  "\<not> no_cleanup a \<Longrightarrow> \<forall>t\<in>set ts. raises env (Clean t) = None \<Longrightarrow>
     cleanup env a ts =
       (map Clean ts @ [CleanFold],
        case clean_fold (scratch_tree env) of Inl e \<Rightarrow> Inl (Raise e) | Inr fs' \<Rightarrow> Inr (Some fs'))"
  by (simp add: cleanup_def clean_all_ok seq_def)

lemma main_stops_prepare: "prepare env a = (tr0, Inl s) \<Longrightarrow> main env a = (tr0, Inl s)"
  by (simp add: main_def seq_def)

lemma main_stops_build:
  "prepare env a = (tr0, Inr ext) \<Longrightarrow> build_tasks env a = (tr1, Inl s) \<Longrightarrow>
     main env a = (tr0 @ tr1, Inl s)"
  by (simp add: main_def run_pipeline_def seq_def)

lemma main_stops_chain:
  "prepare env a = (tr0, Inr ext) \<Longrightarrow> build_tasks env a = (tr1, Inr ts) \<Longrightarrow>
     raises env (RunTasksChain ts) = Some e \<Longrightarrow>
     main env a = (tr0 @ tr1 @ [RunTasksChain ts], Inl (Raise e))"
  by (simp add: main_def run_pipeline_def seq_def call_def)

lemma main_stops_mirror:
  "prepare env a = (tr0, Inr ext) \<Longrightarrow> build_tasks env a = (tr1, Inr ts) \<Longrightarrow>
     raises env (RunTasksChain ts) = None \<Longrightarrow>
     mirror env a ext (chain_output env ts) = (tr2, Inl s) \<Longrightarrow>
     main env a = (tr0 @ tr1 @ [RunTasksChain ts] @ tr2, Inl s)"
  by (simp add: main_def run_pipeline_def seq_def call_def)

lemma main_reaches_cleanup:
  "prepare env a = (tr0, Inr ext) \<Longrightarrow> build_tasks env a = (tr1, Inr ts) \<Longrightarrow>
     raises env (RunTasksChain ts) = None \<Longrightarrow>
     mirror env a ext (chain_output env ts) = (tr2, Inr u) \<Longrightarrow>
     main env a =
       (tr0 @ tr1 @ [RunTasksChain ts] @ tr2 @ fst (cleanup env a ts), snd (cleanup env a ts))"
  by (simp add: main_def run_pipeline_def seq_def call_def split: prod.splits)

lemma prepare_quiet: "ev \<in> set (fst (prepare env a)) \<Longrightarrow> \<not> is_cleanup ev \<and> \<not> is_chain ev"
  by (rule task_event_cleanup) (rule prepare_events)

section \<open>Lemmas: the directory walk\<close>

lemma lookup_append:
  "lookup fs (p @ q) = (case lookup fs p of None \<Rightarrow> None | Some t \<Rightarrow> lookup t q)"
  by (induction p arbitrary: fs) (auto split: fsnode.splits option.splits)

lemma replace_append:
  "lookup fs p = Some t \<Longrightarrow> replace fs (p @ q) new = replace fs p (replace t q new)"
  by (induction p arbitrary: fs) (auto split: fsnode.splits option.splits)

lemma lookup_replace:
  "lookup fs p = Some t \<Longrightarrow> lookup (replace fs p new) p = Some new"
  by (induction p arbitrary: fs) (auto simp: update_conv' split: fsnode.splits option.splits)

lemma replace_replace:
  "lookup fs p = Some t \<Longrightarrow> replace (replace fs p x) p y = replace fs p y"
  by (induction p arbitrary: fs) (auto simp: update_conv' split: fsnode.splits option.splits)

lemma replace_same: "lookup fs p = Some t \<Longrightarrow> replace fs p t = fs"
  by (induction p arbitrary: fs) (auto simp: update_triv split: fsnode.splits option.splits)

lemma os_rmdir_child:
  "lookup fs root = Some (Dir es) \<Longrightarrow> map_of es n = Some (Dir []) \<Longrightarrow>
     os_rmdir (root @ [n]) fs = Inr (replace fs root (Dir (AList.delete n es)))"
  by (simp add: os_rmdir_def)

lemma rmdir_each_empty:
  "lookup fs root = Some (Dir (map (\<lambda>n. (n, Dir [])) ns)) \<Longrightarrow> distinct ns \<Longrightarrow>
     rmdir_each root ns fs = Inr (replace fs root (Dir []))"
proof (induction ns arbitrary: fs)
  case Nil
  then show ?case by (simp add: replace_same)
next
  case (Cons n ns)
  let ?fs1 = "replace fs root (Dir (map (\<lambda>n. (n, Dir [])) ns))"
  have del: "AList.delete n (map (\<lambda>n. (n, Dir [])) (n # ns)) = map (\<lambda>n. (n, Dir [])) ns"
    using Cons.prems(2) by (simp add: image_image)
  have "os_rmdir (root @ [n]) fs = Inr ?fs1"
    using os_rmdir_child[OF Cons.prems(1), of n] del by simp
  moreover have "lookup ?fs1 root = Some (Dir (map (\<lambda>n. (n, Dir [])) ns))"
    using Cons.prems(1) by (rule lookup_replace)
  then have "rmdir_each root ns ?fs1 = Inr (replace ?fs1 root (Dir []))"
    using Cons.prems(2) by (intro Cons.IH) simp_all
  ultimately show ?case
    using Cons.prems(1) by (simp add: replace_replace)
qed

lemma walk_loop_False: "walk_loop xs False fs = Inr (False, fs)"
  by (induction xs arbitrary: fs) auto

lemma walk_loop_append:
  "walk_loop (xs @ ys) b fs =
     (case walk_loop xs b fs of Inl e \<Rightarrow> Inl e | Inr (b', fs') \<Rightarrow> walk_loop ys b' fs')"
  by (induction xs b fs rule: walk_loop.induct) (auto simp: Let_def split: sum.splits)

lemma nfiles_is_dir: "nfiles c = 0 \<Longrightarrow> is_dir c"
  by (cases c) auto

lemma not_dir_nfiles: "\<not> is_dir c \<Longrightarrow> nfiles c = 1"
  by (cases c) auto

lemma nfiles_entries_zero:
  "nfiles_entries es = 0 \<longleftrightarrow> file_names es = [] \<and> subdir_files es = 0"
  by (induction es) (auto simp: file_names_def not_dir_nfiles dest: nfiles_is_dir)

lemma prune_clear: "nfiles c = 0 \<Longrightarrow> well_formed c \<Longrightarrow> prune c = Dir []"
  by (cases c) auto

lemma entries_clear:
  "nfiles_entries es = 0 \<Longrightarrow> well_formed_entries es \<Longrightarrow>
     prune_entries es = map (\<lambda>n. (n, Dir [])) (map fst es) \<and> dir_names es = map fst es"
  by (induction es) (auto simp: dir_names_def prune_clear nfiles_is_dir)

lemma walk_refines:
  "lookup fs root = Some t \<Longrightarrow> well_formed t \<Longrightarrow> is_dir t \<Longrightarrow>
     walk_loop (os_walk root t) True fs = Inr (nfiles t = 0, replace fs root (prune t))"
  and walk_entries_refines:
  "lookup fs root = Some (Dir (es1 @ es2)) \<Longrightarrow> distinct (map fst (es1 @ es2)) \<Longrightarrow>
     well_formed_entries es2 \<Longrightarrow>
     walk_loop (os_walk_entries root es2) True fs =
       Inr (subdir_files es2 = 0, replace fs root (Dir (es1 @ prune_entries es2)))"
proof (induction root t and root es2 arbitrary: fs and fs es1 rule: os_walk_os_walk_entries.induct)
  case (1 root)
  then show ?case by simp
next
  case (2 root)
  then show ?case by simp
next
  case (3 root es)
  from "3.prems" have d: "distinct (map fst es)" and w: "well_formed_entries es" by simp_all
  from "3.IH"[of fs "[]"] "3.prems"(1) d w
  have ents: "walk_loop (os_walk_entries root es) True fs =
               Inr (subdir_files es = 0, replace fs root (Dir (prune_entries es)))"
    by simp
  let ?fs1 = "replace fs root (Dir (prune_entries es))"
  show ?case
  proof (cases "nfiles_entries es = 0")
    case True
    then have fn: "file_names es = []" and sf: "subdir_files es = 0"
      by (simp_all add: nfiles_entries_zero)
    from True have pe: "prune_entries es = map (\<lambda>n. (n, Dir [])) (map fst es)"
      and dn: "dir_names es = map fst es"
      using w by (simp_all add: entries_clear)
    have "lookup ?fs1 root = Some (Dir (map (\<lambda>n. (n, Dir [])) (map fst es)))"
      using "3.prems"(1) by (simp add: lookup_replace pe)
    from rmdir_each_empty[OF this d]
    have "rmdir_each root (dir_names es) ?fs1 = Inr (replace fs root (Dir []))"
      using "3.prems"(1) by (simp add: dn replace_replace)
    with True fn sf ents show ?thesis
      by (simp add: walk_loop_append)
  next
    case False
    then have "\<not> (file_names es = [] \<and> subdir_files es = 0)"
      by (simp add: nfiles_entries_zero)
    with False ents show ?thesis
      by (auto simp: walk_loop_append walk_loop_False)
  qed
next
  case (4 root)
  then show ?case by (simp add: replace_same)
next
  case (5 root n c es)
  from "5.prems"(2) have notin: "n \<notin> fst ` set es1" by auto
  then have mo: "map_of (es1 @ (n, c) # es) n = Some c"
    by (induction es1) auto
  have up: "AList.update n c' (es1 @ (n, c) # es) = es1 @ (n, c') # es" for c'
    using notin by (induction es1) auto
  have d': "distinct (map fst ((es1 @ [(n, c')]) @ es))" for c'
    using "5.prems"(2) by simp
  from "5.prems"(3) have wc: "well_formed c" and we: "well_formed_entries es" by simp_all
  show ?case
  proof (cases c)
    case File
    have "lookup fs root = Some (Dir ((es1 @ [(n, File)]) @ es))"
      using "5.prems"(1) File by simp
    from "5.IH"(2)[OF this d' we] File show ?thesis by simp
  next
    case Link
    with wc show ?thesis by simp
  next
    case (Dir ds)
    have lc: "lookup fs (root @ [n]) = Some c"
      using "5.prems"(1) mo by (simp add: lookup_append)
    from Dir have isd: "is_dir c" by simp
    from "5.IH"(1)[OF lc wc isd]
    have child: "walk_loop (os_walk (root @ [n]) c) True fs =
                   Inr (nfiles c = 0, replace fs (root @ [n]) (prune c))"
      by simp
    have rep: "replace fs (root @ [n]) (prune c) = replace fs root (Dir (es1 @ (n, prune c) # es))"
      using "5.prems"(1) mo by (simp add: replace_append up)
    let ?fs1 = "replace fs root (Dir ((es1 @ [(n, prune c)]) @ es))"
    show ?thesis
    proof (cases "nfiles c = 0")
      case True
      have "lookup ?fs1 root = Some (Dir ((es1 @ [(n, prune c)]) @ es))"
        using "5.prems"(1) by (rule lookup_replace)
      from "5.IH"(2)[OF this d' we]
      have "walk_loop (os_walk_entries root es) True ?fs1 =
              Inr (subdir_files es = 0, replace fs root (Dir ((es1 @ [(n, prune c)]) @ prune_entries es)))"
        using "5.prems"(1) by (simp add: replace_replace)
      with True child rep isd show ?thesis
        by (simp add: walk_loop_append)
    next
      case False
      with child rep isd show ?thesis
        by (simp add: walk_loop_append walk_loop_False)
    qed
  qed
qed

lemma mem_nfiles: "map_of es n = Some c \<Longrightarrow> nfiles c \<le> nfiles_entries es"
  by (induction es) (auto split: if_splits)

lemma file_nfiles: "lookup t q = Some File \<Longrightarrow> 0 < nfiles t"
proof (induction q arbitrary: t)
  case Nil
  then show ?case by simp
next
  case (Cons n q)
  then obtain es c where "t = Dir es" "map_of es n = Some c" "lookup c q = Some File"
    by (auto split: fsnode.splits option.splits)
  with Cons.IH[of c] mem_nfiles[of es n c] show ?case by simp
qed

lemma map_of_prune_entries:
  "map_of es n = Some c \<Longrightarrow>
     map_of (prune_entries es) n = Some c \<or> map_of (prune_entries es) n = Some (prune c)"
  by (induction es) (auto split: if_splits)

lemma prune_keeps_files: "lookup t q = Some File \<Longrightarrow> lookup (prune t) q = Some File"
proof (induction q arbitrary: t)
  case Nil
  then show ?case by simp
next
  case (Cons n q)
  then obtain es c where t: "t = Dir es" and c: "map_of es n = Some c"
    and f: "lookup c q = Some File"
    by (auto split: fsnode.splits option.splits)
  from file_nfiles[OF Cons.prems] t have "nfiles_entries es \<noteq> 0" by simp
  moreover from map_of_prune_entries[OF c] f Cons.IH[OF f]
  have "lookup (Dir (prune_entries es)) (n # q) = Some File" by auto
  ultimately show ?case using t by simp
qed

lemma clean_fold_result:
  assumes "lookup fs [''proc''] = Some t" and "is_dir t" and "well_formed t"
  shows "\<exists>es0. fs = Dir es0
           \<and> clean_fold fs =
               Inr (if nfiles t = 0 then Dir (AList.delete ''proc'' es0)
                    else replace fs [''proc''] (prune t))"
proof -
  from assms(1) obtain es0 where fs: "fs = Dir es0" and t: "map_of es0 ''proc'' = Some t"
    by (auto split: fsnode.splits option.splits)
  have walk: "walk_loop (os_walk [''proc''] t) True fs =
                Inr (nfiles t = 0, replace fs [''proc''] (prune t))"
    using assms(1) assms(3) assms(2) by (rule walk_refines)
  show ?thesis
  proof (cases "nfiles t = 0")
    case True
    then have pt: "prune t = Dir []" using assms(3) by (rule prune_clear)
    have rm: "os_rmdir [''proc''] (replace fs [''proc''] (Dir [])) =
                Inr (Dir (AList.delete ''proc'' es0))"
      using fs t by (simp add: os_rmdir_def update_conv' delete_update_same)
    with assms(1) walk True pt fs show ?thesis by (simp add: clean_fold_def)
  next
    case False
    with assms(1) walk fs show ?thesis by (simp add: clean_fold_def)
  qed
qed

lemma clean_fold_keeps_files:
  assumes "lookup fs [''proc''] = Some t" and "is_dir t" and "well_formed t"
    and "clean_fold fs = Inr fs'" and "lookup fs p = Some File"
  shows "lookup fs' p = Some File"
proof -
  from clean_fold_result[OF assms(1-3)] assms(4) obtain es0 where fs: "fs = Dir es0"
    and fs': "fs' = (if nfiles t = 0 then Dir (AList.delete ''proc'' es0)
                     else replace fs [''proc''] (prune t))"
    by auto
  from assms(1) fs have t: "map_of es0 ''proc'' = Some t"
    by (auto split: option.splits)
  show ?thesis
  proof (cases p)
    case Nil
    with assms(5) fs show ?thesis by simp
  next
    case (Cons m q)
    show ?thesis
    proof (cases "m = ''proc''")
      case True
      with assms(5) Cons fs t have f: "lookup t q = Some File" by simp
      from file_nfiles[OF f] have "nfiles t \<noteq> 0" by simp
      with prune_keeps_files[OF f] True Cons fs t fs' show ?thesis
        by (simp add: update_conv')
    next
      case False
      with assms(5) Cons fs t fs' show ?thesis
        by (simp add: update_conv' delete_conv')
    qed
  qed
qed

lemma clean_fold_link_raises: "clean_fold linked_tree = Inl OSError"
  by (simp add: linked_tree_def clean_fold_def os_rmdir_def dir_names_def file_names_def)

section \<open>Evaluation of sample runs\<close>

lemmas run_defs =
  main_def prepare_def check_args_def load_config_def set_options_def make_output_dir_def
  os_path_dirname_def dirname_def run_pipeline_def build_tasks_def create_task_def
  mirror_def cleanup_def seq_def ret_def halt_def say_def call_def
  parse_substitute_output_def split_def lower_def lower_char_def

lemmas fold_defs = clean_fold_def os_rmdir_def dir_names_def file_names_def

lemmas demo_defs =
  demo_env_def demo_args_def demo_tasks_def chain_fails_env_def write_fails_env_def
  leftover_tree_def file_free_tree_def

section \<open>The scratch directory\<close>

text \<open>
  C1. The spec wants a scratch directory with a leftover file anywhere in it preserved
  entirely, no subdirectory under it deleted. The code does not do that: in the tree
  below \<^verbatim>\<open>proc/b/f\<close> is a leftover file, yet the walk reaches \<^verbatim>\<open>proc/a\<close> first, the
  flag \<^verbatim>\<open>is_empty\<close> is still set there, and the empty subdirectory \<^verbatim>\<open>proc/a/a1\<close>
  is removed. The flag falls at \<^verbatim>\<open>proc/b\<close>, so \<^verbatim>\<open>proc\<close> itself and the file stay.
\<close>

theorem clean_fold_partial_removal:
  "lookup leftover_tree [''proc'', ''b'', ''f''] = Some File
   \<and> lookup leftover_tree [''proc'', ''a'', ''a1''] = Some (Dir [])
   \<and> clean_fold leftover_tree =
       Inr (Dir [(''proc'', Dir [(''a'', Dir []), (''b'', Dir [(''f'', File)])])])
   \<and> clean_fold leftover_tree \<noteq> Inr leftover_tree"
  by (simp add: leftover_tree_def fold_defs)

section \<open>Substitutions\<close>

text \<open>
  C2 (as amended). A substitution list with an entry that has no colon makes
  \<^verbatim>\<open>parse_substitute_output\<close> raise \<^verbatim>\<open>ValueError\<close>, the error of the failed
  unpacking; no mapping is returned. In \<^verbatim>\<open>main\<close> no task is constructed, run or
  cleaned in such a run, the run never returns normally, and once the preparation is
  through it ends with that \<^verbatim>\<open>ValueError\<close>.
\<close>

theorem bad_substitution_value_error:
  assumes "sub \<in> set subs" and "CHR '':'' \<notin> set sub"
  shows "parse_substitute_output (Some subs) = Inl ValueError
       \<and> (substitute_output a = Some subs \<longrightarrow>
            (\<forall>ev\<in>set (fst (main env a)). \<not> is_task_event ev)
          \<and> (\<forall>v. snd (main env a) \<noteq> Inr v)
          \<and> (\<forall>ext tr. prepare env a = (tr, Inr ext) \<longrightarrow> main env a = (tr, Inl (Raise ValueError))))"
proof -
  have p: "parse_substitute_output (Some subs) = Inl ValueError"
    using assms by (simp add: parse_substitute_output_def parse_loop_no_colon)
  have "main env a = (fst (prepare env a), case snd (prepare env a) of Inl s \<Rightarrow> Inl s | Inr ext \<Rightarrow> Inl (Raise ValueError))"
    if "substitute_output a = Some subs"
    using that p
    by (cases "prepare env a") (simp add: main_def run_pipeline_def build_tasks_def seq_def halt_def split: sum.splits)
  then show ?thesis using p
    by (auto dest: prepare_events split: sum.splits)
qed

theorem bad_substitution_value_error_witness:
  "''hmmer'' \<in> set [''prodigal:genes.faa'', ''hmmer'']
   \<and> CHR '':'' \<notin> set ''hmmer''
   \<and> parse_substitute_output (Some [''prodigal:genes.faa'', ''hmmer'']) = Inl ValueError
   \<and> snd (main demo_env
             (demo_args\<lparr>substitute_output := Some [''prodigal:genes.faa'', ''hmmer'']\<rparr>)) =
       Inl (Raise ValueError)
   \<and> filter is_task_event
        (fst (main demo_env
                (demo_args\<lparr>substitute_output := Some [''prodigal:genes.faa'', ''hmmer'']\<rparr>))) = []"
proof -
  let ?subs = "[''prodigal:genes.faa'', ''hmmer'']"
  let ?a = "demo_args\<lparr>substitute_output := Some ?subs\<rparr>"
  have m: "''hmmer'' \<in> set ?subs" and c: "CHR '':'' \<notin> set ''hmmer''" by simp_all
  have s: "substitute_output ?a = Some ?subs" by simp
  obtain tr where p: "prepare demo_env ?a = (tr, Inr [''html''])"
    by (simp add: run_defs demo_defs)
  from bad_substitution_value_error[OF m c, of ?a demo_env] s p
  have "parse_substitute_output (Some ?subs) = Inl ValueError"
    and "\<forall>ev\<in>set (fst (main demo_env ?a)). \<not> is_task_event ev"
    and "main demo_env ?a = (tr, Inl (Raise ValueError))"
    by blast+
  then show ?thesis by (simp add: filter_empty_conv)
qed

text \<open>
  C2 as the spec states it fails on the class of the error: the module has no
  \<^verbatim>\<open>ConfigurationError\<close>, the entry without a colon ends in \<^verbatim>\<open>ValueError\<close>.
\<close>

theorem bad_substitution_not_configuration_error:
  "parse_substitute_output (Some [''hmmer'']) = Inl ValueError
   \<and> parse_substitute_output (Some [''hmmer'']) \<noteq> Inl (OtherError ''ConfigurationError'')"
  by (simp add: parse_substitute_output_def split_def)

text \<open>
  An entry with exactly one colon is cut there: the text before it is the task name,
  the text after it the path of the \<^verbatim>\<open>DummyTask\<close> stored under that name, alone or
  inside a longer list. An entry with a second colon makes the parser raise
  \<^verbatim>\<open>ValueError\<close>, wherever it stands in the list.
\<close>

lemma single_colon_entry:
  assumes "CHR '':'' \<notin> set t" and "CHR '':'' \<notin> set p"
  shows "parse_substitute_output (Some [t @ CHR '':'' # p]) = Inr [(t, DummyTask p t)]
       \<and> parse_loop ((t @ CHR '':'' # p) # subs) res =
           parse_loop subs (AList.update t (DummyTask p t) res)
       \<and> (\<forall>q entries. t @ CHR '':'' # p @ CHR '':'' # q \<in> set entries \<longrightarrow>
            parse_substitute_output (Some entries) = Inl ValueError)"
proof -
  from assms have sp: "split CHR '':'' (t @ CHR '':'' # p) = [t, p]"
    by (simp add: split_two_iff)
  have bad: "split CHR '':'' (t @ CHR '':'' # p @ CHR '':'' # q) \<noteq> [n, out]" for q n out
  proof
    assume "split CHR '':'' (t @ CHR '':'' # p @ CHR '':'' # q) = [n, out]"
    then have e: "t @ CHR '':'' # p @ CHR '':'' # q = n @ CHR '':'' # out"
      and n: "CHR '':'' \<notin> set n" and out: "CHR '':'' \<notin> set out"
      by (simp_all add: split_two_iff)
    from sep_unique[OF e n out] out show False by auto
  qed
  show ?thesis
    using sp bad by (auto simp: parse_substitute_output_def intro!: parse_loop_bad_entry)
qed

text \<open>
  C3. The spec wants an entry split at its first colon, so that a path with colons
  stays whole. The code does not do that: \<^verbatim>\<open>sub.split(":")\<close> has no \<^verbatim>\<open>maxsplit\<close>, the
  entry below falls into three fields, and the unpacking into two names raises
  \<^verbatim>\<open>ValueError\<close>; no \<^verbatim>\<open>DummyTask\<close> for the path after the first colon comes out.
\<close>

theorem second_colon_rejected:
  "split CHR '':'' ''prodigal:/data/run:1/genes.faa'' = [''prodigal'', ''/data/run'', ''1/genes.faa'']
   \<and> parse_substitute_output (Some [''prodigal:/data/run:1/genes.faa'']) = Inl ValueError
   \<and> parse_substitute_output (Some [''prodigal:/data/run:1/genes.faa'']) \<noteq>
       Inr [(''prodigal'', DummyTask ''/data/run:1/genes.faa'' ''prodigal'')]"
  by (simp add: parse_substitute_output_def split_def)

text \<open>
  C6. Whenever the parser returns a mapping, each task name has at most one entry in
  it, every entry is a \<^verbatim>\<open>DummyTask\<close> carrying the name it is stored under, and the
  entry of a name is that of the last list element with the name: an element \<open>t:p\<close>
  after which no element has the task name \<open>t\<close> leaves \<open>t\<close> mapped to
  \<^verbatim>\<open>DummyTask(p, t)\<close>, whatever came before it.
\<close>

theorem last_substitution_wins:
  assumes "parse_substitute_output subs = Inr res"
  shows "distinct (map fst res)
       \<and> (\<forall>(k, v)\<in>set res. \<exists>p. v = DummyTask p k)
       \<and> (\<forall>xs t p ys.
             subs = Some (xs @ (t @ CHR '':'' # p) # ys)
             \<and> (\<forall>s\<in>set ys. takeWhile (\<lambda>c. c \<noteq> CHR '':'') s \<noteq> t) \<longrightarrow>
             map_of res t = Some (DummyTask p t))"
proof -
  from assms have all: "parse_loop (case subs of None \<Rightarrow> [] | Some xs \<Rightarrow> xs) [] = Inr res"
    by (simp add: parse_substitute_output_def)
  from parse_loop_distinct[OF all] have d: "distinct (map fst res)" by simp
  from parse_loop_dummies[OF all] have v: "\<forall>(k, v)\<in>set res. \<exists>p. v = DummyTask p k" by simp
  have l: "map_of res t = Some (DummyTask p t)"
    if s: "subs = Some (xs @ (t @ CHR '':'' # p) # ys)"
      and later: "\<forall>s\<in>set ys. takeWhile (\<lambda>c. c \<noteq> CHR '':'') s \<noteq> t"
    for xs t p ys
  proof -
    from all s obtain r1 where rest: "parse_loop ((t @ CHR '':'' # p) # ys) r1 = Inr res"
      by (auto simp: parse_loop_append split: sum.splits)
    then obtain n out where sp: "split CHR '':'' (t @ CHR '':'' # p) = [n, out]"
      and tail: "parse_loop ys (AList.update n (DummyTask out n) r1) = Inr res"
      by (auto split: list.splits)
    from sp have "t @ CHR '':'' # p = n @ CHR '':'' # out"
      and "CHR '':'' \<notin> set n" and "CHR '':'' \<notin> set out"
      by (simp_all add: split_two_iff)
    from sep_unique[OF this] have eq: "n = t" "out = p" by simp_all
    from parse_loop_keeps[OF tail later] show ?thesis by (simp add: eq update_conv')
  qed
  from d v l show ?thesis by blast
qed

theorem last_substitution_wins_witness:
  "parse_substitute_output (Some [''prodigal:a.faa'', ''prodigal:b.faa'', ''hmmer:h.txt'']) =
     Inr [(''prodigal'', DummyTask ''b.faa'' ''prodigal''),
          (''hmmer'', DummyTask ''h.txt'' ''hmmer'')]
   \<and> distinct (map fst [(''prodigal'', DummyTask ''b.faa'' ''prodigal''),
                         (''hmmer'', DummyTask ''h.txt'' ''hmmer'')])
   \<and> map_of [(''prodigal'', DummyTask ''b.faa'' ''prodigal''),
              (''hmmer'', DummyTask ''h.txt'' ''hmmer'')] ''prodigal'' =
       Some (DummyTask ''b.faa'' ''prodigal'')"
proof -
  let ?res = "[(''prodigal'', DummyTask ''b.faa'' ''prodigal''),
               (''hmmer'', DummyTask ''h.txt'' ''hmmer'')]"
  let ?subs = "[''prodigal:a.faa''] @ (''prodigal'' @ CHR '':'' # ''b.faa'') # [''hmmer:h.txt'']"
  have p: "parse_substitute_output (Some ?subs) = Inr ?res"
    by (simp add: parse_substitute_output_def split_def)
  have n: "\<forall>s\<in>set [''hmmer:h.txt'']. takeWhile (\<lambda>c. c \<noteq> CHR '':'') s \<noteq> ''prodigal''"
    by simp
  from last_substitution_wins[OF p]
  have "distinct (map fst ?res)"
    and "\<forall>xs t p ys.
           Some ?subs = Some (xs @ (t @ CHR '':'' # p) # ys)
           \<and> (\<forall>s\<in>set ys. takeWhile (\<lambda>c. c \<noteq> CHR '':'') s \<noteq> t) \<longrightarrow>
           map_of ?res t = Some (DummyTask p t)"
    by blast+
  from this(1) this(2)[rule_format, of "[''prodigal:a.faa'']" "''prodigal''" "''b.faa''" "[''hmmer:h.txt'']"] n p
  show ?thesis by simp
qed

section \<open>The task factory\<close>

text \<open>
  C4. With a mapping that the parser produced and a constructor that does not raise,
  \<^verbatim>\<open>create_task\<close> first constructs the real task. If the task name of its class is a key
  of the mapping, it prints the message that names the task and the substituted path
  and returns the \<^verbatim>\<open>DummyTask\<close> stored under that key; if not, it prints nothing and
  returns the task it constructed.
\<close>

theorem create_task_substitutes:
  assumes "parse_substitute_output s = Inr subs"
    and "raises env (Construct (RealTask cls pos kw)) = None"
  shows "(class_task_name env cls \<in> fst ` set subs \<longrightarrow>
            (\<exists>path. map_of subs (class_task_name env cls) = Some (DummyTask path (class_task_name env cls))
               \<and> create_task env subs cls pos kw =
                   ([Construct (RealTask cls pos kw),
                     Print (''Substituting output for '' @ class_task_name env cls @ '': '' @ path)],
                    Inr (DummyTask path (class_task_name env cls)))))
       \<and> (class_task_name env cls \<notin> fst ` set subs \<longrightarrow>
            create_task env subs cls pos kw = ([Construct (RealTask cls pos kw)], Inr (RealTask cls pos kw)))"
proof (intro conjI impI)
  assume "class_task_name env cls \<in> fst ` set subs"
  then obtain v where v: "map_of subs (class_task_name env cls) = Some v"
    by (metis domD dom_map_of_conv_image_fst)
  then have "(class_task_name env cls, v) \<in> set subs" by (rule map_of_SomeD)
  moreover have "\<forall>(k, v)\<in>set subs. \<exists>p. v = DummyTask p k"
    using assms(1) unfolding parse_substitute_output_def by (rule parse_loop_dummies) simp
  ultimately obtain path where "v = DummyTask path (class_task_name env cls)" by auto
  with v assms(2)
  show "\<exists>path. map_of subs (class_task_name env cls) = Some (DummyTask path (class_task_name env cls))
               \<and> create_task env subs cls pos kw =
                   ([Construct (RealTask cls pos kw),
                     Print (''Substituting output for '' @ class_task_name env cls @ '': '' @ path)],
                    Inr (DummyTask path (class_task_name env cls)))"
    by (simp add: create_task_def call_def seq_def say_def ret_def)
next
  assume "class_task_name env cls \<notin> fst ` set subs"
  then have "map_of subs (class_task_name env cls) = None"
    by (simp add: map_of_eq_None_iff)
  with assms(2) show "create_task env subs cls pos kw = ([Construct (RealTask cls pos kw)], Inr (RealTask cls pos kw))"
    by (simp add: create_task_def call_def seq_def ret_def)
qed

theorem create_task_substitutes_witness:
  "parse_substitute_output (Some [''prodigal:genes.faa'']) =
     Inr [(''prodigal'', DummyTask ''genes.faa'' ''prodigal'')]
   \<and> create_task demo_env [(''prodigal'', DummyTask ''genes.faa'' ''prodigal'')]
        ProdigalTask [] [] =
       ([Construct (RealTask ProdigalTask [] []),
         Print ''Substituting output for prodigal: genes.faa''],
        Inr (DummyTask ''genes.faa'' ''prodigal''))
   \<and> create_task demo_env [(''prodigal'', DummyTask ''genes.faa'' ''prodigal'')]
        HmmerTask [] [] =
       ([Construct (RealTask HmmerTask [] [])], Inr (RealTask HmmerTask [] []))"
proof -
  let ?subs = "[(''prodigal'', DummyTask ''genes.faa'' ''prodigal'')]"
  have p: "parse_substitute_output (Some [''prodigal:genes.faa'']) = Inr ?subs"
    by (simp add: parse_substitute_output_def split_def)
  have r: "raises demo_env (Construct (RealTask cls [] [])) = None" for cls
    by (simp add: demo_env_def)
  from create_task_substitutes[OF p r, of ProdigalTask]
       create_task_substitutes[OF p r, of HmmerTask] p
  show ?thesis by (auto simp: demo_env_def)
qed

section \<open>Checks at the start of main\<close>

text \<open>
  C7. When the configuration path does not exist, the run consists of one printed
  message and \<^verbatim>\<open>exit(1)\<close>: nothing is loaded, parsed, constructed or executed.
\<close>

theorem missing_config_exits:
  assumes "\<not> path_exists env (config_path a)"
  shows "main env a =
           ([Print ''Please, create config file using phigaro-setup script''], Inl (Exit 1))"
  using assms by (simp add: main_def prepare_def check_args_def seq_def say_def halt_def)

theorem missing_config_exits_witness:
  "\<not> path_exists demo_env (config_path (demo_args\<lparr>config_path := ''absent.yml''\<rparr>))
   \<and> main demo_env (demo_args\<lparr>config_path := ''absent.yml''\<rparr>) =
       ([Print ''Please, create config file using phigaro-setup script''], Inl (Exit 1))"
proof -
  have h: "\<not> path_exists demo_env (config_path (demo_args\<lparr>config_path := ''absent.yml''\<rparr>))"
    by (simp add: demo_env_def)
  from missing_config_exits[OF h] h show ?thesis by simp
qed

text \<open>
  C8. When no \<^verbatim>\<open>-o\<close> is given and the lowercased format list is not exactly
  \<^verbatim>\<open>['stdout']\<close>, the run consists of one printed message and \<^verbatim>\<open>exit(1)\<close>: the
  message about \<^verbatim>\<open>-o/--output\<close> when the configuration file exists, the one about the
  configuration file when it does not.
\<close>

theorem missing_output_exits:
  assumes "output a = PBool False" and "map lower (extension a) \<noteq> [''stdout'']"
  shows "main env a =
           ([Print (if path_exists env (config_path a)
                    then ''Error! Argument -o/--output is required or change the type of the output to stdout.''
                    else ''Please, create config file using phigaro-setup script'')],
            Inl (Exit 1))"
  using assms by (simp add: main_def prepare_def check_args_def seq_def say_def halt_def)

theorem missing_output_exits_witness:
  "output (demo_args\<lparr>output := PBool False\<rparr>) = PBool False
   \<and> map lower (extension (demo_args\<lparr>output := PBool False\<rparr>)) \<noteq> [''stdout'']
   \<and> main demo_env (demo_args\<lparr>output := PBool False\<rparr>) =
       ([Print ''Error! Argument -o/--output is required or change the type of the output to stdout.''],
        Inl (Exit 1))"
proof -
  let ?a = "demo_args\<lparr>output := PBool False\<rparr>"
  have o: "output ?a = PBool False" by simp
  have e: "map lower (extension ?a) \<noteq> [''stdout'']"
    by (simp add: demo_args_def lower_def lower_char_def)
  from missing_output_exits[OF o e, of demo_env] o e show ?thesis
    by (simp add: demo_env_def demo_args_def)
qed

text \<open>
  C9. With no \<^verbatim>\<open>-o\<close> and the format list exactly \<^verbatim>\<open>['stdout']\<close> after lowercasing,
  the output check lets the run pass once the configuration file exists. The run then
  does nothing beyond printing the message about the missing configuration file or
  opening that file, and it never returns normally: the stored output value is
  \<^verbatim>\<open>False\<close>, which is not \<^verbatim>\<open>None\<close>, so \<^verbatim>\<open>os.path.dirname\<close> is applied to it. When the
  configuration loads and has its \<^verbatim>\<open>phigaro\<close> section, the run ends in \<^verbatim>\<open>TypeError\<close>
  before \<^verbatim>\<open>Context.initialize\<close> and before any task is constructed.
\<close>

theorem stdout_only_type_error:
  assumes "output a = PBool False" and "map lower (extension a) = [''stdout'']"
  shows "(path_exists env (config_path a) \<longrightarrow> check_args env a = ret [''stdout''])
       \<and> (fst (main env a) = [Print ''Please, create config file using phigaro-setup script'']
            \<or> fst (main env a) = [OpenConfig (config_path a)])
       \<and> (\<forall>v. snd (main env a) \<noteq> Inr v)
       \<and> (path_exists env (config_path a)
            \<and> raises env (OpenConfig (config_path a)) = None
            \<and> map_of (yaml_load env (config_path a)) ''phigaro'' \<noteq> None
          \<longrightarrow> main env a = ([OpenConfig (config_path a)], Inl (Raise TypeError)))"
proof -
  have chk: "path_exists env (config_path a) \<longrightarrow> check_args env a = ret [''stdout'']"
    using assms by (simp add: check_args_def)
  obtain s where s: "snd (prepare env a) = Inl s"
    by (cases "snd (prepare env a)") (auto simp: prepare_stdout_only[OF assms] split: option.splits if_splits)
  have m: "main env a = (fst (prepare env a), Inl s)"
    unfolding main_def using s by (rule seq_stops)
  show ?thesis
    using chk s by (auto simp: m prepare_stdout_only[OF assms] split: option.splits if_splits)
qed

theorem stdout_only_type_error_witness:
  "output (demo_args\<lparr>output := PBool False, extension := [''STDOUT'']\<rparr>) = PBool False
   \<and> map lower (extension (demo_args\<lparr>output := PBool False, extension := [''STDOUT'']\<rparr>)) =
       [''stdout'']
   \<and> check_args demo_env (demo_args\<lparr>output := PBool False, extension := [''STDOUT'']\<rparr>) =
       ret [''stdout'']
   \<and> main demo_env (demo_args\<lparr>output := PBool False, extension := [''STDOUT'']\<rparr>) =
       ([OpenConfig ''config.yml''], Inl (Raise TypeError))"
proof -
  let ?a = "demo_args\<lparr>output := PBool False, extension := [''STDOUT'']\<rparr>"
  have o: "output ?a = PBool False" by simp
  have e: "map lower (extension ?a) = [''stdout'']"
    by (simp add: lower_def lower_char_def)
  have c: "path_exists demo_env (config_path ?a)
           \<and> raises demo_env (OpenConfig (config_path ?a)) = None
           \<and> map_of (yaml_load demo_env (config_path ?a)) ''phigaro'' \<noteq> None"
    by (simp add: demo_env_def demo_args_def)
  from stdout_only_type_error[OF o e, of demo_env] c o e show ?thesis
    by (simp add: demo_args_def)
qed

text \<open>
  C10. The format list is lowercased once, and nothing after that reads the list as it
  was typed: two runs whose lists agree after lowercasing are the same run, event by
  event, in the same environment and with the other arguments equal. That covers the
  output check, the \<^verbatim>\<open>no_html\<close>, \<^verbatim>\<open>gff\<close> and \<^verbatim>\<open>bed\<close> entries passed to
  \<^verbatim>\<open>Context.initialize\<close>, and the copies to the \<^verbatim>\<open>.tsv\<close> file and standard output.
\<close>

theorem extension_case_insensitive:
  assumes "map lower e1 = map lower e2"
  shows "main env (a\<lparr>extension := e1\<rparr>) = main env (a\<lparr>extension := e2\<rparr>)"
  using assms by (simp add: main_def prepare_extension[of e1 e2])

theorem extension_case_insensitive_witness:
  "map lower [''Tsv'', ''GFF'', ''StdOut''] = map lower [''tSV'', ''gff'', ''stdout'']
   \<and> main demo_env (demo_args\<lparr>extension := [''Tsv'', ''GFF'', ''StdOut'']\<rparr>) =
       main demo_env (demo_args\<lparr>extension := [''tSV'', ''gff'', ''stdout'']\<rparr>)"
proof -
  have h: "map lower [''Tsv'', ''GFF'', ''StdOut''] = map lower [''tSV'', ''gff'', ''stdout'']"
    by (simp add: lower_def lower_char_def)
  from extension_case_insensitive[OF h] h show ?thesis by simp
qed

section \<open>Cleanup\<close>

text \<open>
  C5 (as amended). In every run of \<^verbatim>\<open>main\<close>: if the chain execution raises, the run
  ends with that error and contains no \<^verbatim>\<open>clean()\<close> and no call of \<^verbatim>\<open>clean_fold\<close>; a
  \<^verbatim>\<open>clean()\<close> or a call of \<^verbatim>\<open>clean_fold\<close> occurs only when \<^verbatim>\<open>--no-cleanup\<close> is off
  and the chain execution has returned normally; and when it has, \<^verbatim>\<open>--no-cleanup\<close> is
  off, the copying of the final artifact in between completes and no \<^verbatim>\<open>clean()\<close>
  raises, the run ends with \<^verbatim>\<open>clean()\<close> on every task of the chain, in chain order,
  followed by \<^verbatim>\<open>clean_fold\<close>, whose outcome is the outcome of the run.
\<close>

theorem cleanup_after_success:
  assumes "main env a = (tr, r)"
  shows "(\<forall>ts e. RunTasksChain ts \<in> set tr \<and> raises env (RunTasksChain ts) = Some e \<longrightarrow>
            r = Inl (Raise e) \<and> (\<forall>ev\<in>set tr. \<not> is_cleanup ev))
       \<and> ((\<exists>ev\<in>set tr. is_cleanup ev) \<longrightarrow>
            \<not> no_cleanup a \<and> (\<exists>ts. RunTasksChain ts \<in> set tr \<and> raises env (RunTasksChain ts) = None))
       \<and> (\<forall>ts. RunTasksChain ts \<in> set tr \<and> raises env (RunTasksChain ts) = None
               \<and> snd (mirror env a (map lower (extension a)) (chain_output env ts)) = Inr ()
               \<and> \<not> no_cleanup a \<and> (\<forall>t\<in>set ts. raises env (Clean t) = None) \<longrightarrow>
            (\<exists>pre. tr = pre @ map Clean ts @ [CleanFold] \<and> (\<forall>ev\<in>set pre. \<not> is_cleanup ev))
            \<and> r = (case clean_fold (scratch_tree env) of
                       Inl e \<Rightarrow> Inl (Raise e)
                     | Inr fs' \<Rightarrow> Inr (Some fs')))"
proof -
  obtain tr0 r0 where p: "prepare env a = (tr0, r0)" by (cases "prepare env a")
  have q0: "\<forall>ev\<in>set tr0. \<not> is_cleanup ev \<and> \<not> is_chain ev"
    using prepare_quiet[of _ env a] p by simp
  show ?thesis
  proof (cases r0)
    case (Inl s)
    with p assms have "tr = tr0" by (simp add: main_stops_prepare)
    with q0 show ?thesis by fastforce
  next
    case (Inr ext)
    with p have ext: "ext = map lower (extension a)" by (simp add: prepare_ext)
    obtain tr1 r1 where b: "build_tasks env a = (tr1, r1)" by (cases "build_tasks env a")
    have q1: "\<forall>ev\<in>set tr1. \<not> is_cleanup ev \<and> \<not> is_chain ev"
      using build_tasks_events[of _ env a] b by simp
    show ?thesis
    proof (cases r1)
      case (Inl s)
      with p Inr b assms have "tr = tr0 @ tr1" by (simp add: main_stops_build)
      with q0 q1 show ?thesis by fastforce
    next
      case ts: (Inr ts)
      show ?thesis
      proof (cases "raises env (RunTasksChain ts)")
        case (Some e)
        with p Inr b ts assms have "tr = tr0 @ tr1 @ [RunTasksChain ts]" and "r = Inl (Raise e)"
          by (simp_all add: main_stops_chain)
        with q0 q1 Some show ?thesis by fastforce
      next
        case None
        obtain tr2 r2 where m: "mirror env a ext (chain_output env ts) = (tr2, r2)"
          by (cases "mirror env a ext (chain_output env ts)")
        have q2: "\<forall>ev\<in>set tr2. \<not> is_cleanup ev \<and> \<not> is_chain ev"
          using mirror_events[of _ env a ext "chain_output env ts"] m by simp
        show ?thesis
        proof (cases r2)
          case (Inl s)
          with p Inr b ts None m assms have "tr = tr0 @ tr1 @ [RunTasksChain ts] @ tr2"
            by (simp add: main_stops_mirror)
          with q0 q1 q2 None m Inl ext show ?thesis by fastforce
        next
          case u: (Inr u)
          with p Inr b ts None m assms
          have tr: "tr = (tr0 @ tr1 @ [RunTasksChain ts] @ tr2) @ fst (cleanup env a ts)"
            and r: "r = snd (cleanup env a ts)"
            by (simp_all add: main_reaches_cleanup)
          have q3: "\<forall>ev\<in>set (fst (cleanup env a ts)). \<not> is_chain ev"
            using cleanup_events[of _ env a ts] by simp
          have only: "RunTasksChain ts' \<in> set tr \<Longrightarrow> ts' = ts" for ts'
            using tr q0 q1 q2 q3 by fastforce
          have pre: "\<forall>ev\<in>set (tr0 @ tr1 @ [RunTasksChain ts] @ tr2). \<not> is_cleanup ev"
            using q0 q1 q2 by auto
          have c1: "\<forall>ts e. RunTasksChain ts \<in> set tr \<and> raises env (RunTasksChain ts) = Some e \<longrightarrow>
            r = Inl (Raise e) \<and> (\<forall>ev\<in>set tr. \<not> is_cleanup ev)"
            using only None by auto
          have c2: "(\<exists>ev\<in>set tr. is_cleanup ev) \<longrightarrow>
            \<not> no_cleanup a \<and> (\<exists>ts. RunTasksChain ts \<in> set tr \<and> raises env (RunTasksChain ts) = None)"
          proof (intro impI conjI)
            assume "\<exists>ev\<in>set tr. is_cleanup ev"
            with pre tr have "fst (cleanup env a ts) \<noteq> []" by auto
            then show "\<not> no_cleanup a" by (auto simp: cleanup_disabled)
            show "\<exists>ts. RunTasksChain ts \<in> set tr \<and> raises env (RunTasksChain ts) = None"
              using tr None by auto
          qed
          have c3: "\<forall>ts'. RunTasksChain ts' \<in> set tr \<and> raises env (RunTasksChain ts') = None
               \<and> snd (mirror env a (map lower (extension a)) (chain_output env ts')) = Inr ()
               \<and> \<not> no_cleanup a \<and> (\<forall>t\<in>set ts'. raises env (Clean t) = None) \<longrightarrow>
            (\<exists>pre. tr = pre @ map Clean ts' @ [CleanFold] \<and> (\<forall>ev\<in>set pre. \<not> is_cleanup ev))
            \<and> r = (case clean_fold (scratch_tree env) of
                       Inl e \<Rightarrow> Inl (Raise e)
                     | Inr fs' \<Rightarrow> Inr (Some fs'))"
          proof (intro allI impI)
            fix ts'
            assume h: "RunTasksChain ts' \<in> set tr \<and> raises env (RunTasksChain ts') = None
               \<and> snd (mirror env a (map lower (extension a)) (chain_output env ts')) = Inr ()
               \<and> \<not> no_cleanup a \<and> (\<forall>t\<in>set ts'. raises env (Clean t) = None)"
            then have "ts' = ts" using only by simp
            with h have "cleanup env a ts =
                (map Clean ts' @ [CleanFold],
                 case clean_fold (scratch_tree env) of
                   Inl e \<Rightarrow> Inl (Raise e)
                 | Inr fs' \<Rightarrow> Inr (Some fs'))"
              by (simp add: cleanup_ok)
            with tr r pre
            show "(\<exists>pre. tr = pre @ map Clean ts' @ [CleanFold] \<and> (\<forall>ev\<in>set pre. \<not> is_cleanup ev))
                \<and> r = (case clean_fold (scratch_tree env) of
                           Inl e \<Rightarrow> Inl (Raise e)
                         | Inr fs' \<Rightarrow> Inr (Some fs'))"
              by auto
          qed
          from c1 c2 c3 show ?thesis by blast
        qed
      qed
    qed
  qed
qed

theorem cleanup_after_success_witness:
  "snd (main chain_fails_env demo_args) = Inl (Raise (OtherError ''ExecutionError''))
   \<and> filter is_cleanup (fst (main chain_fails_env demo_args)) = []
   \<and> (\<exists>pre. fst (main demo_env demo_args) = pre @ map Clean demo_tasks @ [CleanFold])
   \<and> snd (main demo_env demo_args) = Inr (Some (Dir []))"
proof -
  obtain tr r where bad: "main chain_fails_env demo_args = (tr, r)"
    by (cases "main chain_fails_env demo_args")
  have b1: "RunTasksChain demo_tasks \<in> set tr"
    using bad by (auto simp: run_defs demo_defs Let_def)
  have b2: "raises chain_fails_env (RunTasksChain demo_tasks) = Some (OtherError ''ExecutionError'')"
    by (simp add: demo_defs)
  from cleanup_after_success[OF bad] b1 b2
  have "r = Inl (Raise (OtherError ''ExecutionError''))" and "\<forall>ev\<in>set tr. \<not> is_cleanup ev"
    by blast+
  with bad have failing:
    "snd (main chain_fails_env demo_args) = Inl (Raise (OtherError ''ExecutionError''))
     \<and> filter is_cleanup (fst (main chain_fails_env demo_args)) = []"
    by (simp add: filter_empty_conv)
  obtain tr' r' where good: "main demo_env demo_args = (tr', r')"
    by (cases "main demo_env demo_args")
  have g1: "RunTasksChain demo_tasks \<in> set tr'"
    using good by (auto simp: run_defs demo_defs Let_def)
  have g2: "raises demo_env (RunTasksChain demo_tasks) = None
            \<and> snd (mirror demo_env demo_args (map lower (extension demo_args))
                     (chain_output demo_env demo_tasks)) = Inr ()
            \<and> \<not> no_cleanup demo_args
            \<and> (\<forall>t\<in>set demo_tasks. raises demo_env (Clean t) = None)"
    by (simp add: run_defs demo_defs Let_def)
  from cleanup_after_success[OF good] g1 g2
  have "(\<exists>pre. tr' = pre @ map Clean demo_tasks @ [CleanFold] \<and> (\<forall>ev\<in>set pre. \<not> is_cleanup ev))
        \<and> r' = (case clean_fold (scratch_tree demo_env) of
                   Inl e \<Rightarrow> Inl (Raise e)
                 | Inr fs' \<Rightarrow> Inr (Some fs'))"
    by blast
  with good have
    "(\<exists>pre. fst (main demo_env demo_args) = pre @ map Clean demo_tasks @ [CleanFold])
     \<and> snd (main demo_env demo_args) = Inr (Some (Dir []))"
    by (auto simp: demo_env_def fold_defs)
  with failing show ?thesis by blast
qed

text \<open>
  C5 as the spec states it fails when the copy to the \<^verbatim>\<open>.tsv\<close> file cannot be written:
  the chain execution has returned normally and \<^verbatim>\<open>--no-cleanup\<close> is off, yet the run
  ends with the error of \<^verbatim>\<open>open\<close> and holds no \<^verbatim>\<open>clean()\<close> and no call of
  \<^verbatim>\<open>clean_fold\<close>.
\<close>

theorem cleanup_skipped_after_write_error:
  "filter is_chain (fst (main write_fails_env (demo_args\<lparr>extension := [''tsv'']\<rparr>))) =
     [RunTasksChain demo_tasks]
   \<and> raises write_fails_env (RunTasksChain demo_tasks) = None
   \<and> \<not> no_cleanup (demo_args\<lparr>extension := [''tsv'']\<rparr>)
   \<and> snd (main write_fails_env (demo_args\<lparr>extension := [''tsv'']\<rparr>)) = Inl (Raise OSError)
   \<and> filter is_cleanup (fst (main write_fails_env (demo_args\<lparr>extension := [''tsv'']\<rparr>))) = []"
  by (simp add: run_defs demo_defs Let_def)

end
